theory Spec2Isabelle
  imports Main "HOL-Library.Word"
begin

unbundle bit_operations_syntax

section \<open>The spinlock word (ll\_lock.h, the native backend)\<close>

text \<open>
  \<^verbatim>\<open>typedef volatile int32_t ll_spinlock_t;\<close>

  A lock is one 32-bit word. The model keeps, next to the value of the word, the list of
  memory operations that the modelled thread has issued on it, in program order: the
  source distinguishes an atomic exchange (\<^verbatim>\<open>__sync_lock_test_and_set\<close>), an ordinary
  volatile load, an ordinary volatile store, a full barrier (\<^verbatim>\<open>__sync_synchronize\<close>)
  and the \<^verbatim>\<open>pause\<close> instruction, and the value alone does not show which one ran.
\<close>

datatype mem_event =
    Xchg "32 word" "32 word"  \<comment> \<open>atomic exchange: value written, value found\<close>
  | Load "32 word"            \<comment> \<open>volatile load: value found\<close>
  | Store "32 word"           \<comment> \<open>volatile store: value written\<close>
  | Full_barrier
  | Pause

record ll_spinlock_t =
  lock_val :: "32 word"
  lock_log :: "mem_event list"

subsection \<open>The primitives the source calls\<close>

definition sync_lock_test_and_set ::
  "ll_spinlock_t \<Rightarrow> 32 word \<Rightarrow> 32 word \<times> ll_spinlock_t" where
  \<comment> \<open>writes \<open>v\<close> and returns the previous contents, in one atomic step\<close>
  "sync_lock_test_and_set l v =
     (lock_val l, l\<lparr>lock_val := v, lock_log := lock_log l @ [Xchg v (lock_val l)]\<rparr>)"

definition sync_synchronize :: "ll_spinlock_t \<Rightarrow> ll_spinlock_t" where
  "sync_synchronize l = l\<lparr>lock_log := lock_log l @ [Full_barrier]\<rparr>"

definition volatile_load :: "ll_spinlock_t \<Rightarrow> 32 word \<times> ll_spinlock_t" where
  "volatile_load l = (lock_val l, l\<lparr>lock_log := lock_log l @ [Load (lock_val l)]\<rparr>)"

definition volatile_store :: "ll_spinlock_t \<Rightarrow> 32 word \<Rightarrow> ll_spinlock_t" where
  "volatile_store l v = l\<lparr>lock_val := v, lock_log := lock_log l @ [Store v]\<rparr>"

definition asm_pause :: "ll_spinlock_t \<Rightarrow> ll_spinlock_t" where
  "asm_pause l = l\<lparr>lock_log := lock_log l @ [Pause]\<rparr>"

subsection \<open>init, destroy, try\_acquire, release\<close>

definition ll_spinlock_init :: "ll_spinlock_t \<Rightarrow> ll_spinlock_t" where
  \<comment> \<open>\<^verbatim>\<open>*ptr_lock = 0;\<close>\<close>
  "ll_spinlock_init l = volatile_store l 0"

definition ll_spinlock_destroy :: "ll_spinlock_t \<Rightarrow> ll_spinlock_t" where
  \<comment> \<open>\<^verbatim>\<open>/* nop */\<close>\<close>
  "ll_spinlock_destroy l = l"

definition ll_spinlock_try_acquire :: "ll_spinlock_t \<Rightarrow> bool \<times> ll_spinlock_t" where
  \<comment> \<open>\<^verbatim>\<open>int ret = __sync_lock_test_and_set(ptr, 1); return ret == 0;\<close>\<close>
  "ll_spinlock_try_acquire l =
     (let (ret, l') = sync_lock_test_and_set l 1 in (ret = 0, l'))"

definition ll_spinlock_release :: "ll_spinlock_t \<Rightarrow> ll_spinlock_t" where
  \<comment> \<open>\<^verbatim>\<open>__sync_synchronize(); *ptr = 0;\<close>\<close>
  "ll_spinlock_release l = volatile_store (sync_synchronize l) 0"

subsection \<open>acquire\<close>

text \<open>
  \<^verbatim>\<open>
  while (__sync_lock_test_and_set(ptr, 1)) {
      while (*ptr == 1) {
          asm volatile ("pause" ::: "memory");
      }
  }
  \<close>
  The word is volatile and shared: between two accesses of the spinning thread another
  thread may have written it. The other threads reach the word through the same
  functions, so what they write is 1 (a test-and-set) or 0 (a release or an init). The
  writes of the others are given to the model as a schedule, one entry before each access
  of the spinning thread.
\<close>

datatype interference = Quiet | Other_locks | Other_unlocks

fun interfere :: "interference \<Rightarrow> ll_spinlock_t \<Rightarrow> ll_spinlock_t" where
  "interfere Quiet l = l"
| "interfere Other_locks l = l\<lparr>lock_val := 1\<rparr>"
| "interfere Other_unlocks l = l\<lparr>lock_val := 0\<rparr>"

text \<open>
  The program points of \<^verbatim>\<open>ll_spinlock_acquire\<close>: about to evaluate the condition of the
  outer loop, about to evaluate the condition of the inner loop, returned.
\<close>

datatype acq_pc = Outer_cond | Inner_cond | Returned

fun acquire_step :: "acq_pc \<Rightarrow> ll_spinlock_t \<Rightarrow> acq_pc \<times> ll_spinlock_t" where
  "acquire_step Outer_cond l =
     (let (ret, l') = sync_lock_test_and_set l 1
      in if ret \<noteq> 0 then (Inner_cond, l') else (Returned, l'))"
| "acquire_step Inner_cond l =
     (let (v, l') = volatile_load l
      in if v = 1 then (Inner_cond, asm_pause l') else (Outer_cond, l'))"
| "acquire_step Returned l = (Returned, l)"

text \<open>
  The loops may spin forever. A run follows the schedule; it is \<open>None\<close> when the schedule
  ends while the thread is still spinning.
\<close>

fun acquire_run :: "acq_pc \<Rightarrow> interference list \<Rightarrow> ll_spinlock_t \<Rightarrow> ll_spinlock_t option" where
  "acquire_run Returned env l = Some l"
| "acquire_run pc [] l = None"
| "acquire_run pc (e # env) l =
     (case acquire_step pc (interfere e l) of (pc', l') \<Rightarrow> acquire_run pc' env l')"

definition ll_spinlock_acquire :: "interference list \<Rightarrow> ll_spinlock_t \<Rightarrow> ll_spinlock_t option" where
  "ll_spinlock_acquire env l = acquire_run Outer_cond env l"

section \<open>The spinlock table\<close>

text \<open>
  \<^verbatim>\<open>#define LL_CACHELINE 8\<close>
\<close>

definition LL_CACHELINE :: int where
  "LL_CACHELINE = 8"

text \<open>
  \<^verbatim>\<open>
  template <int size>  // Must be a power of 2
  class ll_spinlock_table_ext {
      ll_spinlock_t ll_spinlock_tab[size * LL_CACHELINE];
  \<close>
  The template parameter \<^verbatim>\<open>size\<close> is the argument \<open>sz\<close> of every function below (an
  \<^verbatim>\<open>int\<close>). The array bound \<^verbatim>\<open>size * LL_CACHELINE\<close> is an \<^verbatim>\<open>int\<close> constant expression
  that has to be positive and must not overflow; \<open>valid_size\<close> says so.
\<close>

record ll_spinlock_table_ext =
  ll_spinlock_tab :: "ll_spinlock_t list"

definition valid_size :: "int \<Rightarrow> bool" where
  "valid_size sz = (0 < sz \<and> sz * LL_CACHELINE \<le> 2147483647)"

text \<open>An access to the array outside its bounds is a fault of its own.\<close>

datatype fault = Out_of_bounds

text \<open>
  \<^verbatim>\<open>
  ll_spinlock_table_ext() {
      for (int i = 0; i < size * LL_CACHELINE; i++){
          ll_spinlock_init(ll_spinlock_tab + i);
      }
  }
  \<close>
  Before the body runs the array has its declared length and indeterminate contents
  (\<open>garbage\<close>).
\<close>

function ctor_loop :: "int \<Rightarrow> int \<Rightarrow> ll_spinlock_table_ext \<Rightarrow> ll_spinlock_table_ext" where
  "ctor_loop sz i t =
     (if i < sz * LL_CACHELINE
      then ctor_loop sz (i + 1)
             (t\<lparr>ll_spinlock_tab :=
                  (ll_spinlock_tab t)[nat i := ll_spinlock_init (ll_spinlock_tab t ! nat i)]\<rparr>)
      else t)"
  by pat_completeness auto
termination
  by (relation "measure (\<lambda>(sz, i, t). nat (sz * LL_CACHELINE - i))") auto

declare ctor_loop.simps [simp del]

definition ll_spinlock_table_ext_ctor :: "int \<Rightarrow> (nat \<Rightarrow> ll_spinlock_t) \<Rightarrow> ll_spinlock_table_ext" where
  "ll_spinlock_table_ext_ctor sz garbage =
     ctor_loop sz 0 \<lparr>ll_spinlock_tab = map garbage [0..<nat (sz * LL_CACHELINE)]\<rparr>"

text \<open>
  \<^verbatim>\<open>
  template <typename T>
  void acquire_for(T x) {
      uint32_t entry_idx = (uint32_t)(x & (size - 1));
      uint32_t tab_idx = entry_idx * LL_CACHELINE;
      ll_spinlock_acquire(&ll_spinlock_tab[tab_idx]);
  }
  \<close>
  The key \<open>x\<close> is the value of the argument, of whatever integer type \<^verbatim>\<open>T\<close>. On two's
  complement operands \<^verbatim>\<open>&\<close> is the bitwise conjunction of the values, which is \<open>AND\<close> on
  \<open>int\<close>; the cast to \<^verbatim>\<open>uint32_t\<close> reduces modulo \<open>2 ^ 32\<close>, and the multiplication is
  done in \<^verbatim>\<open>uint32_t\<close>, where it wraps.
\<close>

definition acquire_for ::
  "int \<Rightarrow> int \<Rightarrow> interference list \<Rightarrow> ll_spinlock_table_ext \<Rightarrow> fault + ll_spinlock_table_ext option" where
  "acquire_for sz x env t =
     (let entry_idx = (word_of_int (x AND (sz - 1)) :: 32 word);
          tab_idx = entry_idx * word_of_int LL_CACHELINE
      in if unat tab_idx < length (ll_spinlock_tab t)
         then Inr (map_option
                (\<lambda>l'. t\<lparr>ll_spinlock_tab := (ll_spinlock_tab t)[unat tab_idx := l']\<rparr>)
                (ll_spinlock_acquire env (ll_spinlock_tab t ! unat tab_idx)))
         else Inl Out_of_bounds)"

definition release_for ::
  "int \<Rightarrow> int \<Rightarrow> ll_spinlock_table_ext \<Rightarrow> fault + ll_spinlock_table_ext" where
  "release_for sz x t =
     (let entry_idx = (word_of_int (x AND (sz - 1)) :: 32 word);
          tab_idx = entry_idx * word_of_int LL_CACHELINE
      in if unat tab_idx < length (ll_spinlock_tab t)
         then Inr (t\<lparr>ll_spinlock_tab :=
                (ll_spinlock_tab t)[unat tab_idx := ll_spinlock_release (ll_spinlock_tab t ! unat tab_idx)]\<rparr>)
         else Inl Out_of_bounds)"

section \<open>Notions of the specification\<close>

text \<open>
  The states a lock word can reach: from an initialisation, by the operations of the
  interface (for \<^verbatim>\<open>ll_spinlock_acquire\<close>, by each of its steps) and by the writes of
  other threads through the same interface.
\<close>

inductive reachable :: "ll_spinlock_t \<Rightarrow> bool" where
  r_init: "reachable (ll_spinlock_init l)"
| r_try: "reachable l \<Longrightarrow> reachable (snd (ll_spinlock_try_acquire l))"
| r_step: "reachable l \<Longrightarrow> reachable (snd (acquire_step pc l))"
| r_release: "reachable l \<Longrightarrow> reachable (ll_spinlock_release l)"
| r_other: "reachable l \<Longrightarrow> reachable (interfere e l)"

text \<open>
  The test-and-test-and-set pattern as the specification words it, read as a pattern on
  the memory operations of one call: a test-and-set (an exchange writing 1); when it
  found 0 the call is over; otherwise ordinary loads, each load that finds 1 followed by
  a pause, until a load finds 0, and then a test-and-set again.
\<close>

datatype ttas_pos = Expect_tas | Expect_load | Expect_pause

fun ttas_trace :: "ttas_pos \<Rightarrow> mem_event list \<Rightarrow> bool" where
  "ttas_trace Expect_tas (Xchg v old # es) =
     (v = 1 \<and> (if old = 0 then es = [] else ttas_trace Expect_load es))"
| "ttas_trace Expect_load (Load v # es) =
     (if v = 0 then ttas_trace Expect_tas es else v = 1 \<and> ttas_trace Expect_pause es)"
| "ttas_trace Expect_pause (Pause # es) = ttas_trace Expect_load es"
| "ttas_trace _ _ = False"

text \<open>
  The index of the specification, \<^verbatim>\<open>index(key) = key & (capacity - 1)\<close>, and the region of
  the array that belongs to a logical slot: \<open>LL_CACHELINE\<close> consecutive words, the first of
  which is the lock.
\<close>

definition index :: "int \<Rightarrow> int \<Rightarrow> int" where
  "index capacity key = key AND (capacity - 1)"

definition slot_words :: "int \<Rightarrow> nat set" where
  "slot_words i = {nat (i * LL_CACHELINE) ..< nat ((i + 1) * LL_CACHELINE)}"

section \<open>Threads sharing one lock word\<close>

text \<open>
  Modelled from the spec: the test of mutual exclusion, in which \<open>N\<close> threads each run
  \<open>M\<close> iterations of acquire, increment a shared counter, release, all on the same lock.
  The test itself is not part of \<^verbatim>\<open>ll_lock.h\<close>; what a thread does to the lock word is the
  source's \<open>acquire_step\<close> and \<open>ll_spinlock_release\<close>. The increment is a read of the
  counter into a local followed by a write of the local plus one, so that an update can
  be lost when two threads interleave inside it.

  A thread is at a step of \<^verbatim>\<open>ll_spinlock_acquire\<close> (\<open>In_acquire Returned\<close>: the call has
  returned and the counter is about to be read), about to write the counter, about to
  call \<^verbatim>\<open>ll_spinlock_release\<close>, or has finished its \<open>M\<close> iterations.
\<close>

datatype thread_pc = In_acquire acq_pc | Write_counter | Release | Finished

record thread =
  t_pc :: thread_pc
  t_tmp :: nat
  t_iter :: nat

record sys =
  s_lock :: ll_spinlock_t
  s_counter :: nat
  s_threads :: "thread list"

text \<open>
  Modelled from the spec: one step of a thread of the test, on the shared lock word \<open>l\<close>
  and the shared counter \<open>c\<close>. Each access to shared memory is one step.
\<close>

definition thread_step :: "nat \<Rightarrow> thread \<Rightarrow> ll_spinlock_t \<Rightarrow> nat \<Rightarrow> thread \<times> ll_spinlock_t \<times> nat" where
  "thread_step M t l c =
     (case t_pc t of
        In_acquire Returned \<Rightarrow> (t\<lparr>t_tmp := c, t_pc := Write_counter\<rparr>, l, c)
      | In_acquire pc \<Rightarrow>
          (case acquire_step pc l of (pc', l') \<Rightarrow> (t\<lparr>t_pc := In_acquire pc'\<rparr>, l', c))
      | Write_counter \<Rightarrow> (t\<lparr>t_pc := Release\<rparr>, l, t_tmp t + 1)
      | Release \<Rightarrow>
          (t\<lparr>t_iter := t_iter t + 1,
             t_pc := (if t_iter t + 1 < M then In_acquire Outer_cond else Finished)\<rparr>,
           ll_spinlock_release l, c)
      | Finished \<Rightarrow> (t, l, c))"

text \<open>
  Modelled from the spec: the threads run interleaved, in any order. A schedule names the
  thread that takes the next step; a thread that has finished, or a number that names no
  thread, leaves the state as it is.
\<close>

definition sys_step :: "nat \<Rightarrow> nat \<Rightarrow> sys \<Rightarrow> sys" where
  "sys_step M i s =
     (if i < length (s_threads s)
      then (case thread_step M (s_threads s ! i) (s_lock s) (s_counter s) of
              (t', l', c') \<Rightarrow> \<lparr>s_lock = l', s_counter = c', s_threads = (s_threads s)[i := t']\<rparr>)
      else s)"

fun run :: "nat \<Rightarrow> nat list \<Rightarrow> sys \<Rightarrow> sys" where
  "run M [] s = s"
| "run M (i # sched) s = run M sched (sys_step M i s)"







section \<open>try\_acquire\<close>

text \<open>
  C2. For every state of the lock word, \<^verbatim>\<open>ll_spinlock_try_acquire\<close> issues exactly one
  atomic exchange that writes 1, returns true exactly when the word was 0 (free), and
  leaves the word at 1 (held); it is a total function, so it never waits. In the
  single-threaded scenario init, try\_acquire, try\_acquire, release, try\_acquire the
  three attempts return true, false and true.
\<close>

theorem try_acquire_single_claim:
  "ll_spinlock_try_acquire l =
     (lock_val l = 0, l\<lparr>lock_val := 1, lock_log := lock_log l @ [Xchg 1 (lock_val l)]\<rparr>)
   \<and> (let l0 = ll_spinlock_init u;
           (r1, l1) = ll_spinlock_try_acquire l0;
           (r2, l2) = ll_spinlock_try_acquire l1;
           l3 = ll_spinlock_release l2;
           (r4, l4) = ll_spinlock_try_acquire l3
       in r1 \<and> \<not> r2 \<and> r4 \<and> lock_val l1 = 1 \<and> lock_val l2 = 1 \<and> lock_val l3 = 0 \<and> lock_val l4 = 1)"
  by (simp add: ll_spinlock_try_acquire_def sync_lock_test_and_set_def ll_spinlock_init_def
      ll_spinlock_release_def volatile_store_def sync_synchronize_def)

section \<open>The table: index arithmetic and the constructor\<close>

lemma and_mask_range: "0 < sz \<Longrightarrow> 0 \<le> x AND (sz - 1) \<and> x AND (sz - 1) < sz" for x sz :: int
  by simp

lemma unat_word_of_int_small:
  "0 \<le> k \<Longrightarrow> k < 2 ^ 32 \<Longrightarrow> unat (word_of_int k :: 32 word) = nat k"
  by (simp add: unat_eq_nat_uint uint_word_of_int)

lemma entry_idx_unat:
  assumes "valid_size sz"
  shows "unat (word_of_int (x AND (sz - 1)) :: 32 word) = nat (x AND (sz - 1))"
proof -
  have r: "0 \<le> x AND (sz - 1)" "x AND (sz - 1) < sz"
    using assms by (simp_all add: valid_size_def)
  have "sz < 2 ^ 32" using assms by (simp add: valid_size_def LL_CACHELINE_def)
  with r have "x AND (sz - 1) < 2 ^ 32" by linarith
  with r(1) show ?thesis by (rule unat_word_of_int_small)
qed

lemma tab_idx_unat:
  assumes "valid_size sz"
  shows "unat ((word_of_int (x AND (sz - 1)) :: 32 word) * word_of_int LL_CACHELINE)
           = nat (x AND (sz - 1)) * 8"
proof -
  have r: "0 \<le> x AND (sz - 1)" "x AND (sz - 1) < sz"
    using assms by (simp_all add: valid_size_def)
  have "sz * 8 < 2 ^ 32" using assms by (simp add: valid_size_def LL_CACHELINE_def)
  with r have b: "(x AND (sz - 1)) * 8 < 2 ^ 32" by linarith
  have "(word_of_int (x AND (sz - 1)) :: 32 word) * word_of_int LL_CACHELINE
          = word_of_int ((x AND (sz - 1)) * 8)"
    by (simp add: LL_CACHELINE_def)
  moreover have "unat (word_of_int ((x AND (sz - 1)) * 8) :: 32 word) = nat ((x AND (sz - 1)) * 8)"
    using r b by (intro unat_word_of_int_small) simp_all
  ultimately show ?thesis using r by (simp add: nat_mult_distrib)
qed

lemma tab_idx_in_bounds:
  assumes "valid_size sz"
  shows "nat (x AND (sz - 1)) * 8 < nat (sz * LL_CACHELINE)"
proof -
  have r: "0 \<le> x AND (sz - 1)" "x AND (sz - 1) < sz"
    using assms by (simp_all add: valid_size_def)
  then have "(x AND (sz - 1)) * 8 < sz * 8" by simp
  then have "nat ((x AND (sz - 1)) * 8) < nat (sz * 8)" using r(1) by linarith
  then show ?thesis using r(1) by (simp add: LL_CACHELINE_def nat_mult_distrib)
qed

lemma ctor_loop_length: "length (ll_spinlock_tab (ctor_loop sz i t)) = length (ll_spinlock_tab t)"
proof (induction sz i t rule: ctor_loop.induct)
  case (1 sz i t)
  show ?case
  proof (cases "i < sz * LL_CACHELINE")
    case True
    with 1 show ?thesis by (subst ctor_loop.simps) simp
  next
    case False
    then show ?thesis by (subst ctor_loop.simps) simp
  qed
qed

lemma ctor_loop_nth:
  "0 \<le> i \<Longrightarrow> length (ll_spinlock_tab t) = nat (sz * LL_CACHELINE) \<Longrightarrow> j < length (ll_spinlock_tab t) \<Longrightarrow>
   ll_spinlock_tab (ctor_loop sz i t) ! j =
     (if nat i \<le> j then ll_spinlock_init (ll_spinlock_tab t ! j) else ll_spinlock_tab t ! j)"
proof (induction sz i t rule: ctor_loop.induct)
  case (1 sz i t)
  show ?case
  proof (cases "i < sz * LL_CACHELINE")
    case True
    let ?t' = "t\<lparr>ll_spinlock_tab := (ll_spinlock_tab t)[nat i := ll_spinlock_init (ll_spinlock_tab t ! nat i)]\<rparr>"
    have ih: "ll_spinlock_tab (ctor_loop sz (i + 1) ?t') ! j =
        (if nat (i + 1) \<le> j then ll_spinlock_init (ll_spinlock_tab ?t' ! j) else ll_spinlock_tab ?t' ! j)"
      using 1 True by simp
    have step: "ctor_loop sz i t = ctor_loop sz (i + 1) ?t'"
      using True by (subst ctor_loop.simps) simp
    have ni: "nat (i + 1) = Suc (nat i)" using 1(2) by simp
    show ?thesis
    proof -
      consider "j = nat i" | "j < nat i" | "nat i < j" by linarith
      then show ?thesis
        unfolding step ih ni using 1(4) by cases (simp_all add: nth_list_update)
    qed
  next
    case False
    then have "ctor_loop sz i t = t" by (subst ctor_loop.simps) simp
    moreover have "\<not> nat i \<le> j" using False 1(2,3,4) by simp
    ultimately show ?thesis by simp
  qed
qed


lemma ctor_tab:
  "ll_spinlock_tab (ll_spinlock_table_ext_ctor sz g) =
     map (\<lambda>j. ll_spinlock_init (g j)) [0..<nat (sz * LL_CACHELINE)]"
proof (rule nth_equalityI)
  show "length (ll_spinlock_tab (ll_spinlock_table_ext_ctor sz g)) =
          length (map (\<lambda>j. ll_spinlock_init (g j)) [0..<nat (sz * LL_CACHELINE)])"
    by (simp add: ll_spinlock_table_ext_ctor_def ctor_loop_length)
next
  fix j assume "j < length (ll_spinlock_tab (ll_spinlock_table_ext_ctor sz g))"
  then have j: "j < nat (sz * LL_CACHELINE)"
    by (simp add: ll_spinlock_table_ext_ctor_def ctor_loop_length)
  then show "ll_spinlock_tab (ll_spinlock_table_ext_ctor sz g) ! j =
          map (\<lambda>j. ll_spinlock_init (g j)) [0..<nat (sz * LL_CACHELINE)] ! j"
    by (simp add: ll_spinlock_table_ext_ctor_def ctor_loop_nth)
qed

lemma acquire_for_in_bounds:
  assumes "valid_size sz" "length (ll_spinlock_tab t) = nat (sz * LL_CACHELINE)"
  shows "acquire_for sz x env t =
     Inr (map_option
            (\<lambda>l'. t\<lparr>ll_spinlock_tab := (ll_spinlock_tab t)[nat (x AND (sz - 1)) * 8 := l']\<rparr>)
            (ll_spinlock_acquire env (ll_spinlock_tab t ! (nat (x AND (sz - 1)) * 8))))"
  using tab_idx_in_bounds [OF assms(1), of x] assms(2)
  by (simp add: acquire_for_def Let_def tab_idx_unat [OF assms(1)])

lemma release_for_in_bounds:
  assumes "valid_size sz" "length (ll_spinlock_tab t) = nat (sz * LL_CACHELINE)"
  shows "release_for sz x t =
     Inr (t\<lparr>ll_spinlock_tab := (ll_spinlock_tab t)[nat (x AND (sz - 1)) * 8 :=
            ll_spinlock_release (ll_spinlock_tab t ! (nat (x AND (sz - 1)) * 8))]\<rparr>)"
  using tab_idx_in_bounds [OF assms(1), of x] assms(2)
  by (simp add: release_for_def Let_def tab_idx_unat [OF assms(1)])

text \<open>
  C10. For a table whose array bound is well-formed (\<open>valid_size\<close>) and for every key
  value, negative ones included, the entry index is at least 0 and below the capacity;
  neither the cast to \<^verbatim>\<open>uint32_t\<close> nor the multiplication by \<open>LL_CACHELINE\<close> wraps, so the
  array offset is below \<open>capacity * LL_CACHELINE\<close> and \<^verbatim>\<open>acquire_for\<close> and \<^verbatim>\<open>release_for\<close>
  never leave the array. The constructor leaves an array of \<open>capacity * LL_CACHELINE\<close>
  words, every one of them (the padding words too) free, whatever the array held before.
\<close>

theorem table_index_in_bounds:
  assumes "valid_size sz"
  shows "0 \<le> x AND (sz - 1) \<and> x AND (sz - 1) < sz
    \<and> unat (word_of_int (x AND (sz - 1)) :: 32 word) = nat (x AND (sz - 1))
    \<and> unat ((word_of_int (x AND (sz - 1)) :: 32 word) * word_of_int LL_CACHELINE)
        = nat (x AND (sz - 1)) * 8
    \<and> nat (x AND (sz - 1)) * 8 < nat (sz * LL_CACHELINE)
    \<and> (length (ll_spinlock_tab t) = nat (sz * LL_CACHELINE) \<longrightarrow>
         acquire_for sz x env t \<noteq> Inl Out_of_bounds \<and> release_for sz x t \<noteq> Inl Out_of_bounds)
    \<and> length (ll_spinlock_tab (ll_spinlock_table_ext_ctor sz g)) = nat (sz * LL_CACHELINE)
    \<and> (\<forall>l \<in> set (ll_spinlock_tab (ll_spinlock_table_ext_ctor sz g)). lock_val l = 0)
    \<and> acquire_for sz x env (ll_spinlock_table_ext_ctor sz g) \<noteq> Inl Out_of_bounds
    \<and> release_for sz x (ll_spinlock_table_ext_ctor sz g) \<noteq> Inl Out_of_bounds"
proof -
  have r: "0 \<le> x AND (sz - 1) \<and> x AND (sz - 1) < sz"
    using assms by (simp add: valid_size_def)
  have len: "length (ll_spinlock_tab (ll_spinlock_table_ext_ctor sz g)) = nat (sz * LL_CACHELINE)"
    by (simp add: ctor_tab)
  have free: "\<forall>l \<in> set (ll_spinlock_tab (ll_spinlock_table_ext_ctor sz g)). lock_val l = 0"
    by (auto simp: ctor_tab ll_spinlock_init_def volatile_store_def)
  have any: "length (ll_spinlock_tab t) = nat (sz * LL_CACHELINE) \<longrightarrow>
         acquire_for sz x env t \<noteq> Inl Out_of_bounds \<and> release_for sz x t \<noteq> Inl Out_of_bounds" for t
    by (simp add: acquire_for_in_bounds [OF assms] release_for_in_bounds [OF assms])
  show ?thesis
    using r entry_idx_unat [OF assms, of x] tab_idx_unat [OF assms, of x]
      tab_idx_in_bounds [OF assms, of x] any [of t] len free
      any [of "ll_spinlock_table_ext_ctor sz g"]
    by blast
qed

theorem table_index_in_bounds_witness:
  "valid_size 4
   \<and> (-1) AND (4 - 1) < (4::int)
   \<and> unat ((word_of_int ((-1) AND (4 - 1)) :: 32 word) * word_of_int LL_CACHELINE) = 24
   \<and> acquire_for 4 (-1) [Quiet]
        (ll_spinlock_table_ext_ctor 4 (\<lambda>_. \<lparr>lock_val = 7, lock_log = []\<rparr>)) \<noteq> Inl Out_of_bounds
   \<and> release_for 4 (-1)
        (ll_spinlock_table_ext_ctor 4 (\<lambda>_. \<lparr>lock_val = 7, lock_log = []\<rparr>)) \<noteq> Inl Out_of_bounds
   \<and> length (ll_spinlock_tab (ll_spinlock_table_ext_ctor 4 (\<lambda>_. \<lparr>lock_val = 7, lock_log = []\<rparr>))) = 32"
proof -
  have v: "valid_size 4" by (simp add: valid_size_def LL_CACHELINE_def)
  show ?thesis
    using v table_index_in_bounds [OF v, of "-1" "ll_spinlock_table_ext_ctor 4 (\<lambda>_. \<lparr>lock_val = 7, lock_log = []\<rparr>)"
        "[Quiet]" "\<lambda>_. \<lparr>lock_val = 7, lock_log = []\<rparr>"]
    by (simp add: LL_CACHELINE_def)
qed

section \<open>acquire and release\<close>

lemma acquire_step_Outer:
  "acquire_step Outer_cond l =
     (if lock_val l = 0 then Returned else Inner_cond,
      l\<lparr>lock_val := 1, lock_log := lock_log l @ [Xchg 1 (lock_val l)]\<rparr>)"
  by (simp add: sync_lock_test_and_set_def)

lemma acquire_step_Inner:
  "acquire_step Inner_cond l =
     (if lock_val l = 1
      then (Inner_cond, l\<lparr>lock_log := lock_log l @ [Load 1, Pause]\<rparr>)
      else (Outer_cond, l\<lparr>lock_log := lock_log l @ [Load (lock_val l)]\<rparr>))"
  by (simp add: volatile_load_def asm_pause_def)

lemma interfere_log [simp]: "lock_log (interfere e l) = lock_log l"
  by (cases e) simp_all

lemma interfere_val: "lock_val (interfere e l) = (case e of Quiet \<Rightarrow> lock_val l | Other_locks \<Rightarrow> 1 | Other_unlocks \<Rightarrow> 0)"
  by (cases e) simp_all

lemma interfere_held: "lock_val l = 1 \<Longrightarrow> lock_val (interfere e l) = 0 \<or> lock_val (interfere e l) = 1"
  by (cases e) simp_all

lemma acquire_run_trace:
  "acquire_run pc env l = Some l' \<Longrightarrow> (pc = Inner_cond \<longrightarrow> lock_val l = 1) \<Longrightarrow>
   \<exists>evs. lock_log l' = lock_log l @ evs \<and>
     (case pc of Outer_cond \<Rightarrow> ttas_trace Expect_tas evs \<and> lock_val l' = 1
               | Inner_cond \<Rightarrow> ttas_trace Expect_load evs \<and> lock_val l' = 1
               | Returned \<Rightarrow> evs = [] \<and> l' = l)"
proof (induction env arbitrary: pc l)
  case Nil
  then show ?case by (cases pc) simp_all
next
  case (Cons e env)
  show ?case
  proof (cases pc)
    case Returned
    with Cons.prems show ?thesis by simp
  next
    case Outer_cond
    let ?m = "interfere e l"
    let ?l1 = "?m\<lparr>lock_val := 1, lock_log := lock_log ?m @ [Xchg 1 (lock_val ?m)]\<rparr>"
    show ?thesis
    proof (cases "lock_val ?m = 0")
      case True
      with Cons.prems Outer_cond have "l' = ?l1" by (simp del: acquire_step.simps add: acquire_step_Outer)
      with True Outer_cond show ?thesis by simp
    next
      case False
      with Cons.prems Outer_cond have run: "acquire_run Inner_cond env ?l1 = Some l'"
        by (simp del: acquire_step.simps add: acquire_step_Outer)
      from Cons.IH [OF run] obtain evs where
        "lock_log l' = lock_log ?l1 @ evs" "ttas_trace Expect_load evs" "lock_val l' = 1"
        by auto
      with False Outer_cond show ?thesis by simp
    qed
  next
    case Inner_cond
    let ?m = "interfere e l"
    from Cons.prems Inner_cond have "lock_val l = 1" by simp
    then have m01: "lock_val ?m = 0 \<or> lock_val ?m = 1" by (rule interfere_held)
    show ?thesis
    proof (cases "lock_val ?m = 1")
      case True
      let ?l1 = "?m\<lparr>lock_log := lock_log ?m @ [Load 1, Pause]\<rparr>"
      from Cons.prems Inner_cond True have run: "acquire_run Inner_cond env ?l1 = Some l'"
        by (simp del: acquire_step.simps add: acquire_step_Inner)
      have "lock_val ?l1 = 1" using True by simp
      with Cons.IH [OF run] obtain evs where
        "lock_log l' = lock_log ?l1 @ evs" "ttas_trace Expect_load evs" "lock_val l' = 1"
        by auto
      with Inner_cond show ?thesis by simp
    next
      case False
      with m01 have z: "lock_val ?m = 0" by simp
      let ?l1 = "?m\<lparr>lock_log := lock_log ?m @ [Load 0]\<rparr>"
      from Cons.prems Inner_cond z have run: "acquire_run Outer_cond env ?l1 = Some l'"
        by (simp del: acquire_step.simps add: acquire_step_Inner)
      from Cons.IH [OF run] obtain evs where
        "lock_log l' = lock_log ?l1 @ evs" "ttas_trace Expect_tas evs" "lock_val l' = 1"
        by auto
      with Inner_cond show ?thesis by simp
    qed
  qed
qed


lemma ttas_trace_last: "ttas_trace p evs \<Longrightarrow> evs \<noteq> [] \<and> last evs = Xchg 1 0"
  by (induction p evs rule: ttas_trace.induct) (auto split: if_splits)

lemma try_acquire_eq:
  "ll_spinlock_try_acquire l =
     (lock_val l = 0, l\<lparr>lock_val := 1, lock_log := lock_log l @ [Xchg 1 (lock_val l)]\<rparr>)"
  by (simp add: ll_spinlock_try_acquire_def sync_lock_test_and_set_def)

lemma release_eq:
  "ll_spinlock_release l = l\<lparr>lock_val := 0, lock_log := lock_log l @ [Full_barrier, Store 0]\<rparr>"
  by (simp add: ll_spinlock_release_def volatile_store_def sync_synchronize_def)

text \<open>
  C3. \<^verbatim>\<open>ll_spinlock_acquire\<close> is test-and-test-and-set. Whenever it returns, the word is 1
  (held), the memory operations the call added to the log follow the pattern of
  \<open>ttas_trace\<close> (a test-and-set; after a failed one, ordinary loads with a pause after
  each load that found 1, until a load finds 0; then a test-and-set again), and the last
  of them is the caller's own exchange that found 0. Each evaluation of the outer
  condition is one \<^verbatim>\<open>ll_spinlock_try_acquire\<close>: \<^verbatim>\<open>acquire\<close> returns when that attempt
  succeeds and enters the inner loop when it fails, and the inner loop goes back to the
  attempt as soon as a load finds a value other than 1.
\<close>

theorem acquire_test_and_test_and_set:
  "(ll_spinlock_acquire env l = Some l' \<longrightarrow>
        lock_val l' = 1
      \<and> take (length (lock_log l)) (lock_log l') = lock_log l
      \<and> ttas_trace Expect_tas (drop (length (lock_log l)) (lock_log l'))
      \<and> last (lock_log l') = Xchg 1 0)
   \<and> ll_spinlock_acquire [] l = None
   \<and> ll_spinlock_acquire (e # env) l =
        (case ll_spinlock_try_acquire (interfere e l) of
           (True, l1) \<Rightarrow> Some l1
         | (False, l1) \<Rightarrow> acquire_run Inner_cond env l1)
   \<and> acquire_run Inner_cond [] l = None
   \<and> acquire_run Inner_cond (e # env) l =
        (case volatile_load (interfere e l) of
           (v, l1) \<Rightarrow> if v = 1 then acquire_run Inner_cond env (asm_pause l1)
                       else ll_spinlock_acquire env l1)"
proof -
  have post: "lock_val l' = 1
      \<and> take (length (lock_log l)) (lock_log l') = lock_log l
      \<and> ttas_trace Expect_tas (drop (length (lock_log l)) (lock_log l'))
      \<and> last (lock_log l') = Xchg 1 0"
    if run: "ll_spinlock_acquire env l = Some l'"
  proof -
    from run have "acquire_run Outer_cond env l = Some l'"
      by (simp add: ll_spinlock_acquire_def)
    from acquire_run_trace [OF this] obtain evs where
      evs: "lock_log l' = lock_log l @ evs" "ttas_trace Expect_tas evs" "lock_val l' = 1"
      by auto
    from ttas_trace_last [OF evs(2)] have "evs \<noteq> []" "last evs = Xchg 1 0" by simp_all
    with evs show ?thesis by simp
  qed
  have unfold_outer: "ll_spinlock_acquire (e # env) l =
        (case ll_spinlock_try_acquire (interfere e l) of
           (True, l1) \<Rightarrow> Some l1
         | (False, l1) \<Rightarrow> acquire_run Inner_cond env l1)"
    by (simp add: ll_spinlock_acquire_def ll_spinlock_try_acquire_def
        sync_lock_test_and_set_def)
  have unfold_inner: "acquire_run Inner_cond (e # env) l =
        (case volatile_load (interfere e l) of
           (v, l1) \<Rightarrow> if v = 1 then acquire_run Inner_cond env (asm_pause l1)
                       else ll_spinlock_acquire env l1)"
    by (simp add: ll_spinlock_acquire_def volatile_load_def)
  show ?thesis
    using post unfold_outer unfold_inner by (simp add: ll_spinlock_acquire_def)
qed

theorem acquire_test_and_test_and_set_witness:
  "ll_spinlock_acquire [Quiet, Quiet, Other_unlocks, Quiet] \<lparr>lock_val = 1, lock_log = []\<rparr>
     = Some \<lparr>lock_val = 1, lock_log = [Xchg 1 1, Load 1, Pause, Load 0, Xchg 1 0]\<rparr>
   \<and> ttas_trace Expect_tas [Xchg 1 1, Load 1, Pause, Load 0, Xchg 1 0]
   \<and> ll_spinlock_acquire [Other_locks, Other_unlocks, Other_locks, Other_unlocks, Quiet]
        \<lparr>lock_val = 0, lock_log = []\<rparr>
     = Some \<lparr>lock_val = 1, lock_log = [Xchg 1 1, Load 0, Xchg 1 1, Load 0, Xchg 1 0]\<rparr>"
proof -
  have a: "ll_spinlock_acquire [Quiet, Quiet, Other_unlocks, Quiet] \<lparr>lock_val = 1, lock_log = []\<rparr>
     = Some \<lparr>lock_val = 1, lock_log = [Xchg 1 1, Load 1, Pause, Load 0, Xchg 1 0]\<rparr>"
    by (simp add: ll_spinlock_acquire_def sync_lock_test_and_set_def volatile_load_def asm_pause_def)
  have b: "ll_spinlock_acquire [Other_locks, Other_unlocks, Other_locks, Other_unlocks, Quiet]
        \<lparr>lock_val = 0, lock_log = []\<rparr>
     = Some \<lparr>lock_val = 1, lock_log = [Xchg 1 1, Load 0, Xchg 1 1, Load 0, Xchg 1 0]\<rparr>"
    by (simp add: ll_spinlock_acquire_def sync_lock_test_and_set_def volatile_load_def asm_pause_def)
  show ?thesis
    using a b
      acquire_test_and_test_and_set [of "[Quiet, Quiet, Other_unlocks, Quiet]"
        "\<lparr>lock_val = 1, lock_log = []\<rparr>"
        "\<lparr>lock_val = 1, lock_log = [Xchg 1 1, Load 1, Pause, Load 0, Xchg 1 0]\<rparr>"]
    by simp
qed

section \<open>release\<close>

text \<open>
  C4. For every state of the lock word, \<^verbatim>\<open>ll_spinlock_release\<close> issues a full barrier and
  then one store of 0, in this order, and the word is 0 (free) afterwards. The function
  takes no caller identity and checks nothing: the same holds after another thread has
  written the word, and the next \<^verbatim>\<open>ll_spinlock_try_acquire\<close> succeeds.
\<close>

theorem release_resets_after_barrier:
  "ll_spinlock_release l = l\<lparr>lock_val := 0, lock_log := lock_log l @ [Full_barrier, Store 0]\<rparr>
   \<and> lock_val (ll_spinlock_release l) = 0
   \<and> lock_val (ll_spinlock_release (interfere e l)) = 0
   \<and> fst (ll_spinlock_try_acquire (ll_spinlock_release l))"
proof -
  have barrier: "sync_synchronize l = l\<lparr>lock_log := lock_log l @ [Full_barrier]\<rparr>"
    by (simp add: sync_synchronize_def)
  have store: "volatile_store m 0 = m\<lparr>lock_val := 0, lock_log := lock_log m @ [Store 0]\<rparr>" for m
    by (simp add: volatile_store_def)
  have eq: "ll_spinlock_release l =
      l\<lparr>lock_val := 0, lock_log := lock_log l @ [Full_barrier, Store 0]\<rparr>"
    unfolding ll_spinlock_release_def barrier store by simp
  have free: "lock_val (ll_spinlock_release m) = 0" for m
    by (simp add: release_eq)
  have again: "fst (ll_spinlock_try_acquire (ll_spinlock_release l))"
    using free [of l] by (simp add: try_acquire_eq)
  from eq free [of l] free [of "interfere e l"] again show ?thesis by blast
qed

section \<open>The state machine of a lock word\<close>

lemma reachable_01: "reachable l \<Longrightarrow> lock_val l = 0 \<or> lock_val l = 1"
proof (induction rule: reachable.induct)
  case (r_init l)
  then show ?case by (simp add: ll_spinlock_init_def volatile_store_def)
next
  case (r_try l)
  then show ?case by (simp add: try_acquire_eq)
next
  case (r_step l pc)
  then show ?case
    by (cases pc) (auto simp del: acquire_step.simps simp add: acquire_step_Outer acquire_step_Inner acquire_step.simps(3))
next
  case (r_release l)
  then show ?case by (simp add: release_eq)
next
  case (r_other l e)
  then show ?case by (cases e) simp_all
qed

lemma acquire_run_reachable:
  "reachable l \<Longrightarrow> acquire_run pc env l = Some l' \<Longrightarrow> reachable l'"
proof (induction env arbitrary: pc l)
  case Nil
  then show ?case by (cases pc) simp_all
next
  case (Cons e env)
  show ?case
  proof (cases pc)
    case Returned
    with Cons.prems show ?thesis by simp
  next
    case Outer_cond
    have "reachable (snd (acquire_step pc (interfere e l)))"
      using Cons.prems(1) by (intro r_step r_other)
    moreover from Cons.prems(2) Outer_cond
    have "acquire_run (fst (acquire_step pc (interfere e l))) env (snd (acquire_step pc (interfere e l))) = Some l'"
      by (simp del: acquire_step.simps add: case_prod_beta)
    ultimately show ?thesis by (rule Cons.IH)
  next
    case Inner_cond
    have "reachable (snd (acquire_step pc (interfere e l)))"
      using Cons.prems(1) by (intro r_step r_other)
    moreover from Cons.prems(2) Inner_cond
    have "acquire_run (fst (acquire_step pc (interfere e l))) env (snd (acquire_step pc (interfere e l))) = Some l'"
      by (simp del: acquire_step.simps add: case_prod_beta)
    ultimately show ?thesis by (rule Cons.IH)
  qed
qed

lemma inner_quiet_spins:
  "lock_val l = 1 \<Longrightarrow> acquire_run Inner_cond (replicate n Quiet) l = None"
  by (induction n arbitrary: l) (simp_all add: volatile_load_def asm_pause_def)

lemma acquire_quiet_spins:
  "lock_val l \<noteq> 0 \<Longrightarrow> ll_spinlock_acquire (replicate n Quiet) l = None"
  by (cases n) (simp_all add: ll_spinlock_acquire_def sync_lock_test_and_set_def inner_quiet_spins)

text \<open>
  C5. A lock word that was initialised and then only touched through the interface (by
  this thread or by others) holds 0 (free) or 1 (held), and every operation leaves it
  so: init and release leave 0, try\_acquire leaves 1, each step of acquire leaves 0 or
  1, and acquire returns with 1. The value changes in two ways only: from 0 to 1 by a
  successful try\_acquire or by the step of acquire that returns, and from 1 to 0 by
  release. On a held word try\_acquire fails and, with no other thread writing, acquire
  does not return.
\<close>

theorem lock_state_machine:
  assumes "reachable l"
  shows "(lock_val l = 0 \<or> lock_val l = 1)
   \<and> lock_val (ll_spinlock_init l) = 0
   \<and> lock_val (snd (ll_spinlock_try_acquire l)) = 1
   \<and> lock_val (ll_spinlock_release l) = 0
   \<and> (lock_val (snd (acquire_step pc l)) = 0 \<or> lock_val (snd (acquire_step pc l)) = 1)
   \<and> (lock_val (interfere e l) = 0 \<or> lock_val (interfere e l) = 1)
   \<and> (ll_spinlock_acquire env l = Some l' \<longrightarrow> reachable l' \<and> lock_val l' = 1)
   \<and> (fst (ll_spinlock_try_acquire l) \<longrightarrow> lock_val l = 0)
   \<and> (lock_val (snd (ll_spinlock_try_acquire l)) \<noteq> lock_val l \<longrightarrow>
         lock_val l = 0 \<and> fst (ll_spinlock_try_acquire l))
   \<and> (lock_val (ll_spinlock_release l) \<noteq> lock_val l \<longrightarrow> lock_val l = 1)
   \<and> (lock_val (snd (acquire_step pc l)) \<noteq> lock_val l \<longrightarrow>
         lock_val l = 0 \<and> lock_val (snd (acquire_step pc l)) = 1
         \<and> pc = Outer_cond \<and> fst (acquire_step pc l) = Returned)
   \<and> (lock_val l = 1 \<longrightarrow>
         \<not> fst (ll_spinlock_try_acquire l)
         \<and> ll_spinlock_acquire (replicate n Quiet) l = None)"
proof -
  have v: "lock_val l = 0 \<or> lock_val l = 1" using assms by (rule reachable_01)
  have s: "lock_val (snd (acquire_step pc l)) = 0 \<or> lock_val (snd (acquire_step pc l)) = 1"
    using assms by (intro reachable_01 r_step)
  have i: "lock_val (interfere e l) = 0 \<or> lock_val (interfere e l) = 1"
    using assms by (intro reachable_01 r_other)
  have a: "ll_spinlock_acquire env l = Some l' \<longrightarrow> reachable l' \<and> lock_val l' = 1"
  proof
    assume run: "ll_spinlock_acquire env l = Some l'"
    then have "acquire_run Outer_cond env l = Some l'" by (simp add: ll_spinlock_acquire_def)
    from acquire_run_reachable [OF assms this] acquire_run_trace [OF this]
    show "reachable l' \<and> lock_val l' = 1" by auto
  qed
  have t: "lock_val (snd (acquire_step pc l)) \<noteq> lock_val l \<longrightarrow>
         lock_val l = 0 \<and> lock_val (snd (acquire_step pc l)) = 1
         \<and> pc = Outer_cond \<and> fst (acquire_step pc l) = Returned"
    using v by (cases pc) (auto simp del: acquire_step.simps simp add: acquire_step_Outer acquire_step_Inner acquire_step.simps(3))
  have d: "lock_val l = 1 \<longrightarrow> ll_spinlock_acquire (replicate n Quiet) l = None"
    by (simp add: acquire_quiet_spins)
  show ?thesis
    using v s i a t d by (auto simp add: try_acquire_eq release_eq ll_spinlock_init_def volatile_store_def)
qed

theorem lock_state_machine_witness:
  "reachable (ll_spinlock_init \<lparr>lock_val = 7, lock_log = []\<rparr>)
   \<and> lock_val (ll_spinlock_init \<lparr>lock_val = 7, lock_log = []\<rparr>) = 0
   \<and> fst (ll_spinlock_try_acquire (ll_spinlock_init \<lparr>lock_val = 7, lock_log = []\<rparr>))
   \<and> lock_val (snd (ll_spinlock_try_acquire (ll_spinlock_init \<lparr>lock_val = 7, lock_log = []\<rparr>))) = 1
   \<and> reachable (snd (ll_spinlock_try_acquire (ll_spinlock_init \<lparr>lock_val = 7, lock_log = []\<rparr>)))
   \<and> \<not> fst (ll_spinlock_try_acquire (snd (ll_spinlock_try_acquire (ll_spinlock_init \<lparr>lock_val = 7, lock_log = []\<rparr>))))
   \<and> ll_spinlock_acquire (replicate 5 Quiet)
        (snd (ll_spinlock_try_acquire (ll_spinlock_init \<lparr>lock_val = 7, lock_log = []\<rparr>))) = None
   \<and> lock_val (ll_spinlock_release (snd (ll_spinlock_try_acquire (ll_spinlock_init \<lparr>lock_val = 7, lock_log = []\<rparr>)))) = 0"
proof -
  let ?l0 = "ll_spinlock_init \<lparr>lock_val = 7, lock_log = []\<rparr>"
  let ?l1 = "snd (ll_spinlock_try_acquire ?l0)"
  have r0: "reachable ?l0" by (rule r_init)
  have r1: "reachable ?l1" using r0 by (rule r_try)
  have v1: "lock_val ?l1 = 1" by (simp add: try_acquire_eq)
  show ?thesis
    using r0 r1 v1 lock_state_machine [OF r1, of Outer_cond Quiet "[]" ?l0 5]
      lock_state_machine [OF r0, of Outer_cond Quiet "[]" ?l0 5]
    by (simp add: try_acquire_eq ll_spinlock_init_def volatile_store_def)
qed

section \<open>The table: which lock a key selects\<close>

lemma index_range: "valid_size sz \<Longrightarrow> 0 \<le> index sz x \<and> index sz x < sz"
  by (simp add: index_def valid_size_def)

lemma index_offset: "valid_size sz \<Longrightarrow> nat (index sz x * LL_CACHELINE) = nat (x AND (sz - 1)) * 8"
  by (simp add: index_def valid_size_def LL_CACHELINE_def nat_mult_distrib)

text \<open>
  C6. \<^verbatim>\<open>acquire_for\<close> and \<^verbatim>\<open>release_for\<close> select the lock by the same function of the
  key alone, \<open>index capacity key = key AND (capacity - 1)\<close>: on a table with a well-formed
  array bound, \<^verbatim>\<open>acquire_for\<close> is \<^verbatim>\<open>ll_spinlock_acquire\<close> on the word at offset
  \<open>index capacity key * LL_CACHELINE\<close> and \<^verbatim>\<open>release_for\<close> is \<^verbatim>\<open>ll_spinlock_release\<close> on the
  word at the same offset; neither the contents of the table nor the schedule of the
  other threads enters the index.
\<close>

theorem acquire_release_same_index:
  assumes "valid_size sz" "length (ll_spinlock_tab t) = nat (sz * LL_CACHELINE)"
  shows "acquire_for sz x env t =
       Inr (map_option
              (\<lambda>l'. t\<lparr>ll_spinlock_tab := (ll_spinlock_tab t)[nat (index sz x * LL_CACHELINE) := l']\<rparr>)
              (ll_spinlock_acquire env (ll_spinlock_tab t ! nat (index sz x * LL_CACHELINE))))
   \<and> release_for sz x t =
       Inr (t\<lparr>ll_spinlock_tab := (ll_spinlock_tab t)[nat (index sz x * LL_CACHELINE) :=
              ll_spinlock_release (ll_spinlock_tab t ! nat (index sz x * LL_CACHELINE))]\<rparr>)
   \<and> 0 \<le> index sz x \<and> index sz x < sz
   \<and> nat (index sz x * LL_CACHELINE) < length (ll_spinlock_tab t)"
  using index_range [OF assms(1), of x] tab_idx_in_bounds [OF assms(1), of x] assms(2)
  by (simp add: acquire_for_in_bounds [OF assms] release_for_in_bounds [OF assms]
      index_offset [OF assms(1)])

theorem acquire_release_same_index_witness:
  "valid_size 2
   \<and> index 2 3 = 1
   \<and> acquire_for 2 3 [Quiet] \<lparr>ll_spinlock_tab = replicate 16 \<lparr>lock_val = 0, lock_log = []\<rparr>\<rparr> =
       Inr (Some \<lparr>ll_spinlock_tab = (replicate 16 \<lparr>lock_val = 0, lock_log = []\<rparr>)
                     [8 := \<lparr>lock_val = 1, lock_log = [Xchg 1 0]\<rparr>]\<rparr>)
   \<and> release_for 2 3 \<lparr>ll_spinlock_tab = replicate 16 \<lparr>lock_val = 1, lock_log = []\<rparr>\<rparr> =
       Inr \<lparr>ll_spinlock_tab = (replicate 16 \<lparr>lock_val = 1, lock_log = []\<rparr>)
                     [8 := \<lparr>lock_val = 0, lock_log = [Full_barrier, Store 0]\<rparr>]\<rparr>"
proof -
  have v: "valid_size 2" by (simp add: valid_size_def LL_CACHELINE_def)
  have i: "index 2 3 = 1" by (simp add: index_def)
  have a: "ll_spinlock_acquire [Quiet] \<lparr>lock_val = 0, lock_log = []\<rparr>
     = Some \<lparr>lock_val = 1, lock_log = [Xchg 1 0]\<rparr>" 
    by (simp add: ll_spinlock_acquire_def sync_lock_test_and_set_def)
  show ?thesis
    using v i
      acquire_release_same_index [OF v, of "\<lparr>ll_spinlock_tab = replicate 16 \<lparr>lock_val = 0, lock_log = []\<rparr>\<rparr>" 3 "[Quiet]"]
      acquire_release_same_index [OF v, of "\<lparr>ll_spinlock_tab = replicate 16 \<lparr>lock_val = 1, lock_log = []\<rparr>\<rparr>" 3 "[Quiet]"]
    by (simp add: LL_CACHELINE_def a release_eq)
qed

lemma index_pow2: "index (2 ^ k) x = x mod 2 ^ k"
proof -
  have "x AND (2 ^ k - 1) = take_bit k x"
    by (simp add: take_bit_eq_mask mask_eq_exp_minus_1)
  then show ?thesis by (simp add: index_def take_bit_eq_mod)
qed

lemma acquire_for_cong:
  "x AND (sz - 1) = y AND (sz - 1) \<Longrightarrow> acquire_for sz x env t = acquire_for sz y env t"
  by (simp add: acquire_for_def)

lemma release_for_cong:
  "x AND (sz - 1) = y AND (sz - 1) \<Longrightarrow> release_for sz x t = release_for sz y t"
  by (simp add: release_for_def)


lemma acquire_some_held: "ll_spinlock_acquire env l = Some l' \<Longrightarrow> lock_val l' = 1"
proof -
  assume "ll_spinlock_acquire env l = Some l'"
  then have "acquire_run Outer_cond env l = Some l'" by (simp add: ll_spinlock_acquire_def)
  from acquire_run_trace [OF this] show ?thesis by auto
qed

lemma acquire_free_quiet:
  "lock_val l = 0 \<Longrightarrow> ll_spinlock_acquire (Quiet # env) l =
      Some (l\<lparr>lock_val := 1, lock_log := lock_log l @ [Xchg 1 0]\<rparr>)"
  by (simp add: ll_spinlock_acquire_def sync_lock_test_and_set_def)

lemma serialise:
  assumes v: "valid_size sz" and len: "length (ll_spinlock_tab t) = nat (sz * LL_CACHELINE)"
    and same: "y AND (sz - 1) = x AND (sz - 1)"
    and acq: "acquire_for sz x env t = Inr (Some t')"
  shows "acquire_for sz y (replicate n Quiet) t' = Inr None
     \<and> (case release_for sz x t' of
          Inr t'' \<Rightarrow> (case acquire_for sz y [Quiet] t'' of Inr (Some t3) \<Rightarrow> True | _ \<Rightarrow> False)
        | Inl f \<Rightarrow> False)"
proof -
  let ?k = "nat (x AND (sz - 1)) * 8"
  have k: "?k < length (ll_spinlock_tab t)"
    using tab_idx_in_bounds [OF v, of x] len by simp
  from acq obtain l' where
    l': "ll_spinlock_acquire env (ll_spinlock_tab t ! ?k) = Some l'"
    and t': "t' = t\<lparr>ll_spinlock_tab := (ll_spinlock_tab t)[?k := l']\<rparr>"
    by (auto simp: acquire_for_in_bounds [OF v len])
  have held: "lock_val l' = 1" using l' by (rule acquire_some_held)
  have len': "length (ll_spinlock_tab t') = nat (sz * LL_CACHELINE)" using t' len by simp
  have at: "ll_spinlock_tab t' ! ?k = l'" using t' k by simp
  have spin: "acquire_for sz y (replicate n Quiet) t' = Inr None"
    using held at by (simp add: acquire_for_in_bounds [OF v len'] same acquire_quiet_spins)
  let ?t2 = "t'\<lparr>ll_spinlock_tab := (ll_spinlock_tab t')[?k := ll_spinlock_release l']\<rparr>"
  have rel: "release_for sz x t' = Inr ?t2"
    using at by (simp add: release_for_in_bounds [OF v len'])
  have len2: "length (ll_spinlock_tab ?t2) = nat (sz * LL_CACHELINE)" using len' by simp
  have at2: "lock_val (ll_spinlock_tab ?t2 ! ?k) = 0"
    using k t' by (simp add: release_eq)
  have "\<exists>t3. acquire_for sz y [Quiet] ?t2 = Inr (Some t3)"
    unfolding acquire_for_in_bounds [OF v len2] same
    using acquire_free_quiet [OF at2, of "[]"] by simp
  with rel spin show ?thesis by auto
qed

text \<open>
  C7. For a capacity that is a power of two the index is the key modulo the capacity, so
  \<open>key\<close> and \<open>key + capacity\<close>, and more generally any two keys congruent modulo the
  capacity, select the same lock: \<^verbatim>\<open>acquire_for\<close> and \<^verbatim>\<open>release_for\<close> do the same on
  both. They serialise: once \<^verbatim>\<open>acquire_for\<close> has returned for one key, \<^verbatim>\<open>acquire_for\<close> for
  the other does not return while no other thread writes the word, and it returns after
  \<^verbatim>\<open>release_for\<close> of the first key.
\<close>

theorem aliasing_congruence:
  assumes "sz = 2 ^ k"
  shows "index sz key = key mod sz
    \<and> index sz (key + sz) = index sz key
    \<and> acquire_for sz (key + sz) env t = acquire_for sz key env t
    \<and> release_for sz (key + sz) t = release_for sz key t
    \<and> (key1 mod sz = key2 mod sz \<longrightarrow>
          index sz key1 = index sz key2
        \<and> acquire_for sz key1 env t = acquire_for sz key2 env t
        \<and> release_for sz key1 t = release_for sz key2 t
        \<and> (valid_size sz \<and> length (ll_spinlock_tab t) = nat (sz * LL_CACHELINE)
            \<and> acquire_for sz key1 env t = Inr (Some t') \<longrightarrow>
              acquire_for sz key2 (replicate n Quiet) t' = Inr None
            \<and> (case release_for sz key1 t' of
                  Inr t'' \<Rightarrow> (case acquire_for sz key2 [Quiet] t'' of Inr (Some t3) \<Rightarrow> True | _ \<Rightarrow> False)
                | Inl f \<Rightarrow> False)))"
proof -
  have m: "index sz x = x mod sz" for x
    unfolding assms by (rule index_pow2)
  have plus: "index sz (key + sz) = index sz key" by (simp add: m)
  have c: "x AND (sz - 1) = y AND (sz - 1)" if "x mod sz = y mod sz" for x y
    using that m [of x] m [of y] by (simp add: index_def)
  have p: "(key + sz) AND (sz - 1) = key AND (sz - 1)"
    by (rule c) simp
  have imp: "key1 mod sz = key2 mod sz \<longrightarrow>
          index sz key1 = index sz key2
        \<and> acquire_for sz key1 env t = acquire_for sz key2 env t
        \<and> release_for sz key1 t = release_for sz key2 t
        \<and> (valid_size sz \<and> length (ll_spinlock_tab t) = nat (sz * LL_CACHELINE)
            \<and> acquire_for sz key1 env t = Inr (Some t') \<longrightarrow>
              acquire_for sz key2 (replicate n Quiet) t' = Inr None
            \<and> (case release_for sz key1 t' of
                  Inr t'' \<Rightarrow> (case acquire_for sz key2 [Quiet] t'' of Inr (Some t3) \<Rightarrow> True | _ \<Rightarrow> False)
                | Inl f \<Rightarrow> False))"
  proof
    assume h: "key1 mod sz = key2 mod sz"
    have i: "index sz key1 = index sz key2" using h by (simp only: m)
    have e: "key1 AND (sz - 1) = key2 AND (sz - 1)" using h by (rule c)
    have e': "key2 AND (sz - 1) = key1 AND (sz - 1)" using e by (rule sym)
    have s: "valid_size sz \<and> length (ll_spinlock_tab t) = nat (sz * LL_CACHELINE)
            \<and> acquire_for sz key1 env t = Inr (Some t') \<longrightarrow>
              acquire_for sz key2 (replicate n Quiet) t' = Inr None
            \<and> (case release_for sz key1 t' of
                  Inr t'' \<Rightarrow> (case acquire_for sz key2 [Quiet] t'' of Inr (Some t3) \<Rightarrow> True | _ \<Rightarrow> False)
                | Inl f \<Rightarrow> False)"
    proof
      assume a: "valid_size sz \<and> length (ll_spinlock_tab t) = nat (sz * LL_CACHELINE)
            \<and> acquire_for sz key1 env t = Inr (Some t')"
      then have a1: "valid_size sz" and a2: "length (ll_spinlock_tab t) = nat (sz * LL_CACHELINE)"
        and a3: "acquire_for sz key1 env t = Inr (Some t')" by blast+
      show "acquire_for sz key2 (replicate n Quiet) t' = Inr None
            \<and> (case release_for sz key1 t' of
                  Inr t'' \<Rightarrow> (case acquire_for sz key2 [Quiet] t'' of Inr (Some t3) \<Rightarrow> True | _ \<Rightarrow> False)
                | Inl f \<Rightarrow> False)"
        by (rule serialise [OF a1 a2 e' a3])
    qed
    from i acquire_for_cong [OF e] release_for_cong [OF e] s
    show "index sz key1 = index sz key2
        \<and> acquire_for sz key1 env t = acquire_for sz key2 env t
        \<and> release_for sz key1 t = release_for sz key2 t
        \<and> (valid_size sz \<and> length (ll_spinlock_tab t) = nat (sz * LL_CACHELINE)
            \<and> acquire_for sz key1 env t = Inr (Some t') \<longrightarrow>
              acquire_for sz key2 (replicate n Quiet) t' = Inr None
            \<and> (case release_for sz key1 t' of
                  Inr t'' \<Rightarrow> (case acquire_for sz key2 [Quiet] t'' of Inr (Some t3) \<Rightarrow> True | _ \<Rightarrow> False)
                | Inl f \<Rightarrow> False))"
      by blast
  qed
  from m [of key] plus acquire_for_cong [OF p] release_for_cong [OF p] imp
  show ?thesis by blast
qed

theorem aliasing_congruence_witness:
  "(4::int) = 2 ^ 2
   \<and> index 4 (1 + 4) = index 4 1
   \<and> index 4 (-3) = 1
   \<and> (1::int) mod 4 = 5 mod 4
   \<and> acquire_for 4 1 [Quiet] \<lparr>ll_spinlock_tab = replicate 32 \<lparr>lock_val = 0, lock_log = []\<rparr>\<rparr>
        = Inr (Some \<lparr>ll_spinlock_tab = (replicate 32 \<lparr>lock_val = 0, lock_log = []\<rparr>)
                        [8 := \<lparr>lock_val = 1, lock_log = [Xchg 1 0]\<rparr>]\<rparr>)
   \<and> acquire_for 4 5 (replicate 3 Quiet)
        \<lparr>ll_spinlock_tab = (replicate 32 \<lparr>lock_val = 0, lock_log = []\<rparr>)
                        [8 := \<lparr>lock_val = 1, lock_log = [Xchg 1 0]\<rparr>]\<rparr> = Inr None
   \<and> (case release_for 4 1
          \<lparr>ll_spinlock_tab = (replicate 32 \<lparr>lock_val = 0, lock_log = []\<rparr>)
                        [8 := \<lparr>lock_val = 1, lock_log = [Xchg 1 0]\<rparr>]\<rparr> of
        Inr t'' \<Rightarrow> (case acquire_for 4 5 [Quiet] t'' of Inr (Some t3) \<Rightarrow> True | _ \<Rightarrow> False)
      | Inl f \<Rightarrow> False)"
proof -
  have p: "(4::int) = 2 ^ 2" by simp
  have v: "valid_size 4" by (simp add: valid_size_def LL_CACHELINE_def)
  have len: "length (ll_spinlock_tab \<lparr>ll_spinlock_tab = replicate 32 \<lparr>lock_val = 0, lock_log = []\<rparr>\<rparr>)
      = nat (4 * LL_CACHELINE)"
    by (simp add: LL_CACHELINE_def)
  have a: "acquire_for 4 1 [Quiet] \<lparr>ll_spinlock_tab = replicate 32 \<lparr>lock_val = 0, lock_log = []\<rparr>\<rparr>
        = Inr (Some \<lparr>ll_spinlock_tab = (replicate 32 \<lparr>lock_val = 0, lock_log = []\<rparr>)
                        [8 := \<lparr>lock_val = 1, lock_log = [Xchg 1 0]\<rparr>]\<rparr>)"
    by (simp add: acquire_for_in_bounds [OF v len] acquire_free_quiet)
  have m: "(1::int) mod 4 = 5 mod 4" by simp
  have i3: "index 4 (-3) = 1" by (simp add: index_def)
  note inst = aliasing_congruence [OF p, of 1 "[Quiet]"
        "\<lparr>ll_spinlock_tab = replicate 32 \<lparr>lock_val = 0, lock_log = []\<rparr>\<rparr>" 1 5
        "\<lparr>ll_spinlock_tab = (replicate 32 \<lparr>lock_val = 0, lock_log = []\<rparr>)
                        [8 := \<lparr>lock_val = 1, lock_log = [Xchg 1 0]\<rparr>]\<rparr>" 3]
  from inst have shift: "index 4 (1 + 4) = index 4 1" by blast
  from inst m v len a
  have ser: "acquire_for 4 5 (replicate 3 Quiet)
        \<lparr>ll_spinlock_tab = (replicate 32 \<lparr>lock_val = 0, lock_log = []\<rparr>)
                        [8 := \<lparr>lock_val = 1, lock_log = [Xchg 1 0]\<rparr>]\<rparr> = Inr None
   \<and> (case release_for 4 1
          \<lparr>ll_spinlock_tab = (replicate 32 \<lparr>lock_val = 0, lock_log = []\<rparr>)
                        [8 := \<lparr>lock_val = 1, lock_log = [Xchg 1 0]\<rparr>]\<rparr> of
        Inr t'' \<Rightarrow> (case acquire_for 4 5 [Quiet] t'' of Inr (Some t3) \<Rightarrow> True | _ \<Rightarrow> False)
      | Inl f \<Rightarrow> False)"
    by blast
  from p shift i3 m a ser show ?thesis by blast
qed

section \<open>The table: padding and frame\<close>

lemma slot_words_disjoint:
  "0 \<le> i \<Longrightarrow> 0 \<le> j \<Longrightarrow> i \<noteq> j \<Longrightarrow> slot_words i \<inter> slot_words j = {}"
  by (auto simp: slot_words_def LL_CACHELINE_def)

lemma slot_words_tile:
  assumes "0 \<le> sz"
  shows "(\<Union>i \<in> {0..<sz}. slot_words i) = {0..<nat (sz * LL_CACHELINE)}"
proof (intro equalityI subsetI)
  fix w assume "w \<in> (\<Union>i \<in> {0..<sz}. slot_words i)"
  then obtain i where "0 \<le> i" "i < sz" "w \<in> slot_words i" by auto
  then show "w \<in> {0..<nat (sz * LL_CACHELINE)}"
    by (auto simp: slot_words_def LL_CACHELINE_def)
next
  fix w assume "w \<in> {0..<nat (sz * LL_CACHELINE)}"
  then have w: "int w < sz * 8" by (simp add: LL_CACHELINE_def)
  let ?i = "int w div 8"
  have "0 \<le> ?i" "?i < sz" using w by simp_all
  moreover have "w \<in> slot_words ?i"
    by (simp add: slot_words_def LL_CACHELINE_def) linarith
  ultimately show "w \<in> (\<Union>i \<in> {0..<sz}. slot_words i)" by auto
qed

lemma slot_words_first: "0 \<le> i \<Longrightarrow> nat (i * LL_CACHELINE) \<in> slot_words i"
  by (simp add: slot_words_def LL_CACHELINE_def)

text \<open>
  C9. The array is cut into regions of \<open>LL_CACHELINE\<close> consecutive words, one per logical
  slot: the regions of distinct slots are disjoint, together they are the whole array, and
  the lock of a slot is the first word of its region, at offset \<open>index * LL_CACHELINE\<close>.
  \<^verbatim>\<open>acquire_for\<close> and \<^verbatim>\<open>release_for\<close> leave the length of the array and every word other
  than that one as they were (value and log of accesses), and what they do depends on no
  other word: on two tables that agree on that word they fail or return alike and leave
  the same word there.
\<close>

theorem table_frame:
  assumes "valid_size sz" "length (ll_spinlock_tab t) = nat (sz * LL_CACHELINE)"
  shows "(0 \<le> i \<and> 0 \<le> j \<and> i \<noteq> j \<longrightarrow> slot_words i \<inter> slot_words j = {})
   \<and> (\<Union>i \<in> {0..<sz}. slot_words i) = {0..<length (ll_spinlock_tab t)}
   \<and> nat (index sz x * LL_CACHELINE) \<in> slot_words (index sz x)
   \<and> (release_for sz x t = Inr t1 \<longrightarrow>
         length (ll_spinlock_tab t1) = length (ll_spinlock_tab t)
       \<and> (\<forall>w. w \<noteq> nat (index sz x * LL_CACHELINE) \<longrightarrow>
              ll_spinlock_tab t1 ! w = ll_spinlock_tab t ! w))
   \<and> (acquire_for sz x env t = Inr (Some t2) \<longrightarrow>
         length (ll_spinlock_tab t2) = length (ll_spinlock_tab t)
       \<and> (\<forall>w. w \<noteq> nat (index sz x * LL_CACHELINE) \<longrightarrow>
              ll_spinlock_tab t2 ! w = ll_spinlock_tab t ! w))
   \<and> (length (ll_spinlock_tab u) = length (ll_spinlock_tab t)
       \<and> ll_spinlock_tab u ! nat (index sz x * LL_CACHELINE)
           = ll_spinlock_tab t ! nat (index sz x * LL_CACHELINE) \<longrightarrow>
         map_sum id (map_option (\<lambda>t'. ll_spinlock_tab t' ! nat (index sz x * LL_CACHELINE)))
           (acquire_for sz x env u)
         = map_sum id (map_option (\<lambda>t'. ll_spinlock_tab t' ! nat (index sz x * LL_CACHELINE)))
           (acquire_for sz x env t)
       \<and> map_sum id (\<lambda>t'. ll_spinlock_tab t' ! nat (index sz x * LL_CACHELINE))
           (release_for sz x u)
         = map_sum id (\<lambda>t'. ll_spinlock_tab t' ! nat (index sz x * LL_CACHELINE))
           (release_for sz x t))"
proof -
  let ?k = "nat (index sz x * LL_CACHELINE)"
  have k: "?k = nat (x AND (sz - 1)) * 8" using assms(1) by (rule index_offset)
  have kb: "?k < length (ll_spinlock_tab t)"
    using tab_idx_in_bounds [OF assms(1), of x] assms(2) k by simp
  have d: "0 \<le> i \<and> 0 \<le> j \<and> i \<noteq> j \<longrightarrow> slot_words i \<inter> slot_words j = {}"
    using slot_words_disjoint by blast
  have tile: "(\<Union>i \<in> {0..<sz}. slot_words i) = {0..<length (ll_spinlock_tab t)}"
    using assms slot_words_tile [of sz] by (simp add: valid_size_def)
  have first: "?k \<in> slot_words (index sz x)"
    using index_range [OF assms(1), of x] by (intro slot_words_first) simp
  have rel: "release_for sz x t = Inr t1 \<longrightarrow>
         length (ll_spinlock_tab t1) = length (ll_spinlock_tab t)
       \<and> (\<forall>w. w \<noteq> ?k \<longrightarrow> ll_spinlock_tab t1 ! w = ll_spinlock_tab t ! w)"
    by (auto simp: release_for_in_bounds [OF assms] k)
  have acq: "acquire_for sz x env t = Inr (Some t2) \<longrightarrow>
         length (ll_spinlock_tab t2) = length (ll_spinlock_tab t)
       \<and> (\<forall>w. w \<noteq> ?k \<longrightarrow> ll_spinlock_tab t2 ! w = ll_spinlock_tab t ! w)"
    by (auto simp: acquire_for_in_bounds [OF assms] k)
  have rd: "length (ll_spinlock_tab u) = length (ll_spinlock_tab t)
       \<and> ll_spinlock_tab u ! ?k = ll_spinlock_tab t ! ?k \<longrightarrow>
         map_sum id (map_option (\<lambda>t'. ll_spinlock_tab t' ! ?k)) (acquire_for sz x env u)
         = map_sum id (map_option (\<lambda>t'. ll_spinlock_tab t' ! ?k)) (acquire_for sz x env t)
       \<and> map_sum id (\<lambda>t'. ll_spinlock_tab t' ! ?k) (release_for sz x u)
         = map_sum id (\<lambda>t'. ll_spinlock_tab t' ! ?k) (release_for sz x t)"
  proof
    assume h: "length (ll_spinlock_tab u) = length (ll_spinlock_tab t)
       \<and> ll_spinlock_tab u ! ?k = ll_spinlock_tab t ! ?k"
    then have lu: "length (ll_spinlock_tab u) = nat (sz * LL_CACHELINE)"
      and same: "ll_spinlock_tab u ! (nat (x AND (sz - 1)) * 8) = ll_spinlock_tab t ! (nat (x AND (sz - 1)) * 8)"
      using assms(2) k by simp_all
    have kb': "nat (x AND (sz - 1)) * 8 < length (ll_spinlock_tab t)" using kb k by simp
    have kbu: "nat (x AND (sz - 1)) * 8 < length (ll_spinlock_tab u)" using kb' h by simp
    show "map_sum id (map_option (\<lambda>t'. ll_spinlock_tab t' ! ?k)) (acquire_for sz x env u)
         = map_sum id (map_option (\<lambda>t'. ll_spinlock_tab t' ! ?k)) (acquire_for sz x env t)
       \<and> map_sum id (\<lambda>t'. ll_spinlock_tab t' ! ?k) (release_for sz x u)
         = map_sum id (\<lambda>t'. ll_spinlock_tab t' ! ?k) (release_for sz x t)"
      unfolding acquire_for_in_bounds [OF assms(1) lu] acquire_for_in_bounds [OF assms]
        release_for_in_bounds [OF assms(1) lu] release_for_in_bounds [OF assms] k same
      using kb' kbu by (simp add: option.map_comp comp_def)
  qed
  from d tile first rel acq rd show ?thesis by blast
qed


theorem table_frame_witness:
  "valid_size 2
   \<and> slot_words 0 \<inter> slot_words 1 = {}
   \<and> release_for 2 3 \<lparr>ll_spinlock_tab = replicate 16 \<lparr>lock_val = 1, lock_log = []\<rparr>\<rparr>
       = Inr \<lparr>ll_spinlock_tab = (replicate 16 \<lparr>lock_val = 1, lock_log = []\<rparr>)
                  [8 := \<lparr>lock_val = 0, lock_log = [Full_barrier, Store 0]\<rparr>]\<rparr>
   \<and> ll_spinlock_tab \<lparr>ll_spinlock_tab = (replicate 16 \<lparr>lock_val = 1, lock_log = []\<rparr>)
                  [8 := \<lparr>lock_val = 0, lock_log = [Full_barrier, Store 0]\<rparr>]\<rparr> ! 9
       = ll_spinlock_tab \<lparr>ll_spinlock_tab = replicate 16 \<lparr>lock_val = 1, lock_log = []\<rparr>\<rparr> ! 9
   \<and> acquire_for 2 3 [Quiet, Other_unlocks, Quiet]
         \<lparr>ll_spinlock_tab = replicate 16 \<lparr>lock_val = 1, lock_log = []\<rparr>\<rparr>
       = Inr (Some \<lparr>ll_spinlock_tab = (replicate 16 \<lparr>lock_val = 1, lock_log = []\<rparr>)
                  [8 := \<lparr>lock_val = 1, lock_log = [Xchg 1 1, Load 0, Xchg 1 0]\<rparr>]\<rparr>)
   \<and> ll_spinlock_tab \<lparr>ll_spinlock_tab = (replicate 16 \<lparr>lock_val = 1, lock_log = []\<rparr>)
                  [8 := \<lparr>lock_val = 1, lock_log = [Xchg 1 1, Load 0, Xchg 1 0]\<rparr>]\<rparr> ! 9
       = ll_spinlock_tab \<lparr>ll_spinlock_tab = replicate 16 \<lparr>lock_val = 1, lock_log = []\<rparr>\<rparr> ! 9
   \<and> map_sum id (\<lambda>t'. ll_spinlock_tab t' ! nat (index 2 3 * LL_CACHELINE))
         (release_for 2 3 \<lparr>ll_spinlock_tab = (replicate 16 \<lparr>lock_val = 0, lock_log = [Pause]\<rparr>)
                  [8 := \<lparr>lock_val = 1, lock_log = []\<rparr>]\<rparr>)
       = map_sum id (\<lambda>t'. ll_spinlock_tab t' ! nat (index 2 3 * LL_CACHELINE))
         (release_for 2 3 \<lparr>ll_spinlock_tab = replicate 16 \<lparr>lock_val = 1, lock_log = []\<rparr>\<rparr>)"
proof -
  let ?t = "\<lparr>ll_spinlock_tab = replicate 16 \<lparr>lock_val = 1, lock_log = []\<rparr>\<rparr>"
  let ?t1 = "\<lparr>ll_spinlock_tab = (replicate 16 \<lparr>lock_val = 1, lock_log = []\<rparr>)
                  [8 := \<lparr>lock_val = 0, lock_log = [Full_barrier, Store 0]\<rparr>]\<rparr>"
  let ?t2 = "\<lparr>ll_spinlock_tab = (replicate 16 \<lparr>lock_val = 1, lock_log = []\<rparr>)
                  [8 := \<lparr>lock_val = 1, lock_log = [Xchg 1 1, Load 0, Xchg 1 0]\<rparr>]\<rparr>"
  let ?u = "\<lparr>ll_spinlock_tab = (replicate 16 \<lparr>lock_val = 0, lock_log = [Pause]\<rparr>)
                  [8 := \<lparr>lock_val = 1, lock_log = []\<rparr>]\<rparr>"
  have v: "valid_size 2" by (simp add: valid_size_def LL_CACHELINE_def)
  have len: "length (ll_spinlock_tab ?t) = nat (2 * LL_CACHELINE)" by (simp add: LL_CACHELINE_def)
  have r: "release_for 2 3 ?t = Inr ?t1"
    by (simp add: release_for_in_bounds [OF v len] release_eq)
  have run: "ll_spinlock_acquire [Quiet, Other_unlocks, Quiet] \<lparr>lock_val = 1, lock_log = []\<rparr>
      = Some \<lparr>lock_val = 1, lock_log = [Xchg 1 1, Load 0, Xchg 1 0]\<rparr>"
    by (simp add: ll_spinlock_acquire_def sync_lock_test_and_set_def volatile_load_def)
  have a: "acquire_for 2 3 [Quiet, Other_unlocks, Quiet] ?t = Inr (Some ?t2)"
    by (simp add: acquire_for_in_bounds [OF v len] run)
  have z: "(0::int) \<le> 0 \<and> (0::int) \<le> 1 \<and> (0::int) \<noteq> 1" by simp
  have ne: "(9::nat) \<noteq> nat (index 2 3 * LL_CACHELINE)" by (simp add: index_def LL_CACHELINE_def)
  have su: "length (ll_spinlock_tab ?u) = length (ll_spinlock_tab ?t)
       \<and> ll_spinlock_tab ?u ! nat (index 2 3 * LL_CACHELINE)
           = ll_spinlock_tab ?t ! nat (index 2 3 * LL_CACHELINE)"
    by (simp add: index_def LL_CACHELINE_def)
  note inst = table_frame [OF v len, of 0 1 3 ?t1 "[Quiet, Other_unlocks, Quiet]" ?t2 ?u]
  from inst z have dj: "slot_words 0 \<inter> slot_words 1 = {}" by blast
  from inst r ne have f1: "ll_spinlock_tab ?t1 ! 9 = ll_spinlock_tab ?t ! 9" by blast
  from inst a ne have f2: "ll_spinlock_tab ?t2 ! 9 = ll_spinlock_tab ?t ! 9" by blast
  from inst su have rd: "map_sum id (\<lambda>t'. ll_spinlock_tab t' ! nat (index 2 3 * LL_CACHELINE))
         (release_for 2 3 ?u)
       = map_sum id (\<lambda>t'. ll_spinlock_tab t' ! nat (index 2 3 * LL_CACHELINE))
         (release_for 2 3 ?t)" by blast
  from v dj r f1 a f2 rd show ?thesis by blast
qed

section \<open>The table: the capacity is not checked\<close>









section \<open>Mutual exclusion\<close>


























end
